theory Spec2Isabelle
  imports Complex_Main "HOL-Library.AList"
begin

section \<open>Request pacing and response cache of gemini\_integration.py\<close>

text \<open>
  The module keeps two pieces of state with invariants: the sliding-window
  \<open>RateLimiter\<close> and the size-capped \<open>completion_cache\<close> of \<open>AIAssistant\<close>.
  Both are modelled by explicit state passing. Every reading of \<open>time.time()\<close> is a
  parameter \<open>now\<close> of the function that reads it; Python floats are taken as exact
  reals. Exceptions are values of \<open>py_error\<close>.
\<close>

subsection \<open>Python builtins used by the module\<close>

datatype py_error = ValueError

text \<open>\<open>min(xs)\<close>: raises \<open>ValueError\<close> on an empty sequence.\<close>

definition py_min :: "real list \<Rightarrow> py_error + real" where
  "py_min xs = (case xs of [] \<Rightarrow> Inl ValueError | x # rest \<Rightarrow> Inr (fold min rest x))"

text \<open>
  \<open>min(xs, key=f)\<close>: the first element, in iteration order, whose key is minimal (a later
  element replaces the current one only when its key is strictly smaller); \<open>ValueError\<close>
  on an empty sequence.
\<close>

definition py_min_by :: "('a \<Rightarrow> real) \<Rightarrow> 'a list \<Rightarrow> py_error + 'a" where
  "py_min_by f xs =
     (case xs of
        [] \<Rightarrow> Inl ValueError
      | x # rest \<Rightarrow> Inr (fold (\<lambda>y best. if f y < f best then y else best) rest x))"

subsection \<open>RateLimiter\<close>

text \<open>
  \<open>self.lock\<close> is an \<open>asyncio.Lock\<close>; what a call does with it, and the
  \<open>asyncio.sleep\<close> it may await, are recorded as the events of the call, in order.
\<close>

record RateLimiter =
  requests_per_minute :: int
  request_times :: "real list"

datatype event = Acquire | Sleep real | Raise py_error | Release

text \<open>\<open>RateLimiter.__init__\<close>: stores its argument, with no check.\<close>

definition RateLimiter_init :: "int \<Rightarrow> RateLimiter" where
  "RateLimiter_init rpm = \<lparr>requests_per_minute = rpm, request_times = []\<rparr>"

text \<open>
  \<open>RateLimiter.wait_if_needed\<close>. The whole body runs inside \<open>async with self.lock\<close>:
  the lock is taken first and given back last, also when \<open>min\<close> raises. \<open>now\<close> is the
  clock read right after the lock is taken. The timestamp appended at the end is that
  same \<open>now\<close>, whether or not the call slept.
\<close>

definition wait_if_needed :: "RateLimiter \<Rightarrow> real \<Rightarrow> event list \<times> RateLimiter" where
  "wait_if_needed self now =
     (let purged = self\<lparr>request_times :=
                     [req_time \<leftarrow> request_times self. now - req_time < 60]\<rparr>;
          recorded = purged\<lparr>request_times := request_times purged @ [now]\<rparr>
      in if requests_per_minute purged \<le> int (length (request_times purged)) then
           (case py_min (request_times purged) of
              Inl e \<Rightarrow> ([Acquire, Raise e, Release], purged)
            | Inr oldest_request \<Rightarrow>
                (let wait_time = 60 - (now - oldest_request)
                 in if wait_time > 0 then ([Acquire, Sleep wait_time, Release], recorded)
                    else ([Acquire, Release], recorded)))
         else ([Acquire, Release], recorded))"

text \<open>
  The construction as the specification words it, which rejects a non-positive limit
  with \<open>InvalidConfiguration\<close>. It is not taken from the source, which has no such
  error and no such check; it is here only to be compared with \<open>RateLimiter_init\<close>.
\<close>

datatype config_error = InvalidConfiguration

definition spec_RequestPacer_new :: "int \<Rightarrow> config_error + RateLimiter" where
  "spec_RequestPacer_new maxRequestsPerWindow =
     (if maxRequestsPerWindow \<le> 0 then Inl InvalidConfiguration
      else Inr \<lparr>requests_per_minute = maxRequestsPerWindow, request_times = []\<rparr>)"

subsection \<open>Callers of one limiter\<close>

text \<open>
  The time a call spends in \<open>asyncio.sleep\<close>, and whether it ended by raising.
\<close>

fun slept :: "event list \<Rightarrow> real" where
  "slept [] = 0"
| "slept (Sleep d # evs) = d + slept evs"
| "slept (Acquire # evs) = slept evs"
| "slept (Raise e # evs) = slept evs"
| "slept (Release # evs) = slept evs"

fun raised :: "event list \<Rightarrow> bool" where
  "raised [] = False"
| "raised (Raise e # evs) = True"
| "raised (Acquire # evs) = raised evs"
| "raised (Sleep d # evs) = raised evs"
| "raised (Release # evs) = raised evs"


text \<open>
  Several tasks calling \<open>wait_if_needed\<close> on one limiter, in the order of their arrival
  times. \<open>asyncio.Lock\<close> serves its waiters first come, first served, so a task takes the
  lock at the later of its arrival and the moment the previous holder gave the lock
  back; that moment is its \<open>now\<close>. Computation takes no time and \<open>asyncio.sleep(d)\<close>
  lasts exactly \<open>d\<close>, so the call returns (the request is admitted) at \<open>now + d\<close>.
  \<open>started\<close> lists the clock readings of the calls, \<open>admitted\<close> the return times of the
  calls that returned normally.
\<close>

record pacer_run =
  limiter :: RateLimiter
  lock_free :: real
  started :: "real list"
  admitted :: "real list"

definition pacer_start :: "RateLimiter \<Rightarrow> pacer_run" where
  "pacer_start self = \<lparr>limiter = self, lock_free = 0, started = [], admitted = []\<rparr>"

fun run_calls :: "pacer_run \<Rightarrow> real list \<Rightarrow> pacer_run" where
  "run_calls st [] = st"
| "run_calls st (arrival # rest) =
     (let now = max arrival (lock_free st);
          res = wait_if_needed (limiter st) now;
          finished = now + slept (fst res)
      in run_calls \<lparr>limiter = snd res, lock_free = finished,
                     started = started st @ [now],
                     admitted = (if raised (fst res) then admitted st
                                 else admitted st @ [finished])\<rparr> rest)"

text \<open>
  The number of admissions in the trailing window of 60 seconds that ends at \<open>t\<close>, as
  the purge of \<open>wait_if_needed\<close> counts a window: an admission at \<open>a\<close> is inside while
  \<open>t - a < 60\<close>.
\<close>

definition admissions_in_window :: "real list \<Rightarrow> real \<Rightarrow> nat" where
  "admissions_in_window adm t = length [a \<leftarrow> adm. a \<le> t \<and> t - a < 60]"

subsection \<open>AIRequest and AIResponse\<close>

record AIRequest =
  prompt :: string
  req_context :: string
  max_tokens :: int
  temperature :: real
  stream :: bool
  request_type :: string

record AIResponse =
  content :: string
  finish_reason :: string
  usage :: "(string \<times> int) list"
  model :: string
  created_at :: real

text \<open>
  The dataclass constructor with \<open>__post_init__\<close>: a missing \<open>usage\<close> becomes the three
  zero counters, and a \<open>created_at\<close> of \<open>0.0\<close> (the default) becomes the clock reading.
\<close>

definition AIResponse_new ::
  "real \<Rightarrow> string \<Rightarrow> string \<Rightarrow> (string \<times> int) list option \<Rightarrow> string \<Rightarrow> real \<Rightarrow> AIResponse" where
  "AIResponse_new clock c fr u m ca =
     \<lparr>content = c, finish_reason = fr,
      usage = (case u of
                 None \<Rightarrow> [(''prompt_tokens'', 0), (''completion_tokens'', 0), (''total_tokens'', 0)]
               | Some d \<Rightarrow> d),
      model = m,
      created_at = (if ca = 0 then clock else ca)\<rparr>"

subsection \<open>AIAssistant and its completion cache\<close>

text \<open>
  \<open>completion_cache\<close> is a \<open>dict\<close>: an association list with distinct keys, in insertion
  order. \<open>d[k] = v\<close> replaces the value in place when \<open>k\<close> is a key and appends
  \<open>(k, v)\<close> otherwise (\<open>AList.update\<close>); \<open>del d[k]\<close> removes the entry
  (\<open>AList.delete\<close>); \<open>d.keys()\<close> iterates in insertion order. The Gemini service and the
  logger are left out of the record: no cache operation touches them.
\<close>

record AIAssistant =
  completion_cache :: "(string \<times> AIResponse) list"
  cache_max_size :: int

definition AIAssistant_init :: AIAssistant where
  "AIAssistant_init = \<lparr>completion_cache = [], cache_max_size = 100\<rparr>"

text \<open>
  \<open>AIAssistant._add_to_cache\<close>. The key function of \<open>min\<close> reads
  \<open>self.completion_cache[k].created_at\<close> for keys \<open>k\<close> of the dict only, so that lookup
  never raises.
\<close>

definition add_to_cache :: "AIAssistant \<Rightarrow> string \<Rightarrow> AIResponse \<Rightarrow> py_error + AIAssistant" where
  "add_to_cache self key response =
     (if cache_max_size self \<le> int (length (completion_cache self)) then
        (case py_min_by (\<lambda>k. created_at (the (map_of (completion_cache self) k)))
                        (map fst (completion_cache self)) of
           Inl e \<Rightarrow> Inl e
         | Inr oldest_key \<Rightarrow>
             Inr (self\<lparr>completion_cache :=
                    AList.update key response
                      (AList.delete oldest_key (completion_cache self))\<rparr>))
      else Inr (self\<lparr>completion_cache := AList.update key response (completion_cache self)\<rparr>))"

text \<open>\<open>AIAssistant.clear_cache\<close>.\<close>

definition clear_cache :: "AIAssistant \<Rightarrow> AIAssistant" where
  "clear_cache self = self\<lparr>completion_cache := []\<rparr>"

text \<open>
  The cache check that opens \<open>get_code_completion\<close>: \<open>cache_key\<close> must be truthy
  (neither \<open>None\<close> nor the empty string) and a key of the dict, and the cached response
  must be less than 300 seconds old at the clock reading \<open>now\<close>. The check only reads;
  the assistant is returned as it was.
\<close>

definition cache_check ::
  "AIAssistant \<Rightarrow> string option \<Rightarrow> real \<Rightarrow> AIResponse option \<times> AIAssistant" where
  "cache_check self cache_key now =
     (case cache_key of
        None \<Rightarrow> (None, self)
      | Some k \<Rightarrow>
          if k \<noteq> [] \<and> k \<in> set (map fst (completion_cache self)) then
            (let cached_response = the (map_of (completion_cache self) k)
             in if now - created_at cached_response < 300 then (Some cached_response, self)
                else (None, self))
          else (None, self))"

text \<open>
  \<open>AIAssistant.get_code_completion\<close>. \<open>gemini\<close> stands for
  \<open>self.gemini_service.generate_completion\<close>, which answers every request with an
  \<open>AIResponse\<close> (its failures are responses with \<open>finish_reason = "error"\<close>).
\<close>

definition get_code_completion ::
  "(AIRequest \<Rightarrow> AIResponse) \<Rightarrow> AIAssistant \<Rightarrow> string \<Rightarrow> string \<Rightarrow> string option \<Rightarrow> real
     \<Rightarrow> py_error + (AIResponse \<times> AIAssistant)" where
  "get_code_completion gemini self code ctx cache_key now =
     (case fst (cache_check self cache_key now) of
        Some cached_response \<Rightarrow> Inr (cached_response, self)
      | None \<Rightarrow>
          (let request = \<lparr>prompt = code, req_context = ctx, max_tokens = 512,
                          temperature = 3 / 10, stream = False,
                          request_type = ''completion''\<rparr>;
               response = gemini request
           in case cache_key of
                None \<Rightarrow> Inr (response, self)
              | Some k \<Rightarrow>
                  if k \<noteq> [] \<and> finish_reason response \<noteq> ''error'' then
                    (case add_to_cache self k response of
                       Inl e \<Rightarrow> Inl e
                     | Inr self' \<Rightarrow> Inr (response, self'))
                  else Inr (response, self)))"

text \<open>Sequences of operations on one assistant; the first exception ends the run.\<close>

datatype cache_op =
    GetCodeCompletion "AIRequest \<Rightarrow> AIResponse" string string "string option" real
  | AddToCache string AIResponse
  | ClearCache

fun apply_op :: "AIAssistant \<Rightarrow> cache_op \<Rightarrow> py_error + AIAssistant" where
  "apply_op self (GetCodeCompletion gemini code ctx cache_key now) =
     (case get_code_completion gemini self code ctx cache_key now of
        Inl e \<Rightarrow> Inl e
      | Inr res \<Rightarrow> Inr (snd res))"
| "apply_op self (AddToCache key response) = add_to_cache self key response"
| "apply_op self ClearCache = Inr (clear_cache self)"

fun run_ops :: "AIAssistant \<Rightarrow> cache_op list \<Rightarrow> py_error + AIAssistant" where
  "run_ops self [] = Inr self"
| "run_ops self (op # ops) =
     (case apply_op self op of Inl e \<Rightarrow> Inl e | Inr self' \<Rightarrow> run_ops self' ops)"

text \<open>
  The responses of the specification's examples: \<open>X\<close>, \<open>Y\<close> and \<open>Z\<close>, constructed at
  the clock readings 0, 1 and 2 with the default \<open>created_at\<close>.
\<close>

definition resp_X :: AIResponse where
  "resp_X = AIResponse_new 0 ''X'' ''stop'' None ''gemini-pro'' 0"

definition resp_Y :: AIResponse where
  "resp_Y = AIResponse_new 1 ''Y'' ''stop'' None ''gemini-pro'' 0"

definition resp_Z :: AIResponse where
  "resp_Z = AIResponse_new 2 ''Z'' ''stop'' None ''gemini-pro'' 0"

subsection \<open>Helper facts on \<open>min\<close>\<close>

lemma fold_min_le_start: "fold min xs (x::real) \<le> x"
proof (induction xs arbitrary: x)
  case Nil
  then show ?case by simp
next
  case (Cons a xs)
  have "fold min xs (min a x) \<le> min a x" by (rule Cons.IH)
  then show ?case by simp
qed

lemma fold_min_le_elem: "y \<in> set xs \<Longrightarrow> fold min xs (x::real) \<le> y"
proof (induction xs arbitrary: x)
  case Nil
  then show ?case by simp
next
  case (Cons a xs)
  show ?case
  proof (cases "y = a")
    case True
    have "fold min xs (min a x) \<le> min a x" by (rule fold_min_le_start)
    then show ?thesis using True by simp
  next
    case False
    then show ?thesis using Cons by simp
  qed
qed

lemma fold_min_mem: "fold min xs (x::real) \<in> set (x # xs)"
proof (induction xs arbitrary: x)
  case Nil
  then show ?case by simp
next
  case (Cons a xs)
  have "fold min xs (min a x) \<in> set (min a x # xs)" by (rule Cons.IH)
  moreover have "min a x = a \<or> min a x = x" by (simp add: min_def)
  ultimately show ?case by auto
qed

lemma py_min_Inr:
  assumes "py_min xs = Inr m"
  shows "m \<in> set xs" and "\<forall>y \<in> set xs. m \<le> y"
proof -
  from assms obtain x rest where xs: "xs = x # rest" and m: "m = fold min rest x"
    by (auto simp: py_min_def split: list.splits)
  show "m \<in> set xs" using fold_min_mem [of rest x] xs m by simp
  show "\<forall>y \<in> set xs. m \<le> y"
    using fold_min_le_start [of rest x] fold_min_le_elem [of _ rest x] xs m by auto
qed

lemma py_min_nonempty: "xs \<noteq> [] \<Longrightarrow> \<exists>m. py_min xs = Inr m"
  by (cases xs) (simp_all add: py_min_def)

lemma py_min_Min: "xs \<noteq> [] \<Longrightarrow> py_min xs = Inr (Min (set xs))"
proof -
  assume ne: "xs \<noteq> []"
  then obtain m where m: "py_min xs = Inr m" using py_min_nonempty by blast
  have "Min (set xs) = m"
    using py_min_Inr [OF m] ne by (intro Min_eqI) auto
  then show ?thesis using m by simp
qed

text \<open>The branches of \<open>wait_if_needed\<close>, with \<open>min\<close> resolved.\<close>

lemma wait_if_needed_cases:
  "wait_if_needed self now =
     (let purged = [req_time \<leftarrow> request_times self. now - req_time < 60]
      in if requests_per_minute self \<le> int (length purged) then
           (if purged = [] then
              ([Acquire, Raise ValueError, Release], self\<lparr>request_times := purged\<rparr>)
            else if 60 - (now - Min (set purged)) > 0 then
              ([Acquire, Sleep (60 - (now - Min (set purged))), Release],
               self\<lparr>request_times := purged @ [now]\<rparr>)
            else ([Acquire, Release], self\<lparr>request_times := purged @ [now]\<rparr>))
         else ([Acquire, Release], self\<lparr>request_times := purged @ [now]\<rparr>))"
proof (cases "[req_time \<leftarrow> request_times self. now - req_time < 60] = []")
  case True
  then show ?thesis by (simp add: wait_if_needed_def Let_def py_min_def)
next
  case False
  then show ?thesis using py_min_Min [OF False] by (simp add: wait_if_needed_def Let_def)
qed

lemma Min_purged_le:
  "t \<in> set [req_time \<leftarrow> ts. now - req_time < (60::real)]
   \<Longrightarrow> Min (set [req_time \<leftarrow> ts. now - req_time < 60]) \<le> t"
  by (rule Min_le) simp_all

lemma Min_purged_in:
  assumes "[req_time \<leftarrow> ts. now - req_time < (60::real)] \<noteq> []"
  shows "Min (set [req_time \<leftarrow> ts. now - req_time < 60])
           \<in> set [req_time \<leftarrow> ts. now - req_time < 60]"
  using Min_in [OF finite_set, of "[req_time \<leftarrow> ts. now - req_time < 60]"] assms
  unfolding set_empty by blast


subsection \<open>Helper facts on the cache\<close>

text \<open>\<open>min(..., key=f)\<close> returns the first element with the least key.\<close>

lemma fold_first_min:
  fixes f :: "'a \<Rightarrow> real"
  assumes g: "g = (\<lambda>y best. if f y < f best then y else best)"
  shows "\<exists>pre post. x # rest = pre @ fold g rest x # post
           \<and> (\<forall>y \<in> set pre. f (fold g rest x) < f y)
           \<and> (\<forall>y \<in> set post. f (fold g rest x) \<le> f y)"
proof (induction rest arbitrary: x)
  case Nil
  have "[x] = [] @ fold g [] x # []" by simp
  then show ?case by force
next
  case (Cons a r)
  show ?case
  proof (cases "f a < f x")
    case True
    define k where "k = fold g r a"
    have step: "fold g (a # r) x = k" using True by (simp add: g k_def)
    from Cons.IH [of a] obtain pre post where
      dec: "a # r = pre @ k # post" and lt: "\<forall>y \<in> set pre. f k < f y"
      and le: "\<forall>y \<in> set post. f k \<le> f y" unfolding k_def by blast
    have "a \<in> set (pre @ k # post)" using dec by (metis list.set_intros(1))
    then have "f k \<le> f a" using lt le by auto
    then have "f k < f x" using True by simp
    then have lt': "\<forall>y \<in> set (x # pre). f k < f y" using lt by simp
    have dec': "x # a # r = (x # pre) @ k # post" using dec by simp
    show ?thesis unfolding step using dec' lt' le by blast
  next
    case False
    define k where "k = fold g r x"
    have step: "fold g (a # r) x = k" using False by (simp add: g k_def)
    from Cons.IH [of x] obtain pre post where
      dec: "x # r = pre @ k # post" and lt: "\<forall>y \<in> set pre. f k < f y"
      and le: "\<forall>y \<in> set post. f k \<le> f y" unfolding k_def by blast
    show ?thesis
    proof (cases pre)
      case Nil
      then have kx: "k = x" and "post = r" using dec by simp_all
      then have dec': "x # a # r = [] @ k # (a # r)"
        and le': "\<forall>y \<in> set (a # r). f k \<le> f y"
        using le False by auto
      have lt': "\<forall>y \<in> set ([]::'a list). f k < f y" by simp
      show ?thesis unfolding step using dec' lt' le' by blast
    next
      case (Cons p ps)
      then have px: "p = x" and r: "r = ps @ k # post" using dec by simp_all
      have "f k < f x" using lt Cons px by simp
      then have "f k < f a" using False by simp
      then have lt': "\<forall>y \<in> set (x # a # ps). f k < f y" using lt Cons px by simp
      have dec': "x # a # r = (x # a # ps) @ k # post" using r by simp
      show ?thesis unfolding step using dec' lt' le by blast
    qed
  qed
qed

lemma py_min_by_first_min:
  fixes f :: "'a \<Rightarrow> real"
  assumes "xs \<noteq> []"
  shows "\<exists>pre k post. py_min_by f xs = Inr k \<and> xs = pre @ k # post
           \<and> (\<forall>y \<in> set pre. f k < f y) \<and> (\<forall>y \<in> set post. f k \<le> f y)"
proof -
  from assms obtain x rest where xs: "xs = x # rest" by (cases xs) auto
  define g where "g = (\<lambda>y best. if f y < f best then y else best)"
  have res: "py_min_by f xs = Inr (fold g rest x)"
    using xs by (simp add: py_min_by_def g_def)
  from fold_first_min [OF g_def, of x rest] obtain pre post where
    "x # rest = pre @ fold g rest x # post"
    "\<forall>y \<in> set pre. f (fold g rest x) < f y"
    "\<forall>y \<in> set post. f (fold g rest x) \<le> f y" by blast
  with res xs show ?thesis by blast
qed

text \<open>Facts on the dict operations.\<close>

lemma update_new_key:
  "key \<notin> fst ` set d \<Longrightarrow> AList.update key v d = d @ [(key, v)]"
  by (induction d) auto

lemma update_existing_key:
  "key \<in> fst ` set d \<Longrightarrow> length (AList.update key v d) = length d
     \<and> map fst (AList.update key v d) = map fst d"
  by (induction d) auto

lemma length_update_le: "length (AList.update key v d) \<le> Suc (length d)"
  by (induction d) auto

lemma length_delete_key:
  assumes "distinct (map fst d)" and "k \<in> fst ` set d"
  shows "Suc (length (AList.delete k d)) = length d"
  using assms by (induction d) (auto simp: rev_image_eqI)

lemma length_delete_less:
  "k \<in> fst ` set d \<Longrightarrow> length (AList.delete k d) < length d"
proof (induction d)
  case Nil
  then show ?case by simp
next
  case (Cons p ps)
  show ?case
  proof (cases "fst p = k")
    case True
    have "length (AList.delete k ps) \<le> length ps" by (rule AList.length_delete_le)
    then show ?thesis using True by simp
  next
    case False
    then have "k \<in> fst ` set ps" using Cons.prems by auto
    then have "length (AList.delete k ps) < length ps" by (rule Cons.IH)
    then show ?thesis using False by simp
  qed
qed

lemma delete_middle:
  assumes "distinct (map fst (pre @ (k, r) # post))"
  shows "AList.delete k (pre @ (k, r) # post) = pre @ post"
proof -
  have "k \<notin> fst ` set pre" and "k \<notin> fst ` set post" using assms by auto
  then have "AList.delete k pre = pre" and "AList.delete k post = post" by simp_all
  then show ?thesis unfolding AList.delete_eq by simp
qed

lemma oldest_entry:
  assumes dist: "distinct (map fst d)" and ne: "d \<noteq> []"
  shows "\<exists>pre k r post.
           py_min_by (\<lambda>k. created_at (the (map_of d k))) (map fst d) = Inr k
           \<and> d = pre @ (k, r) # post
           \<and> (\<forall>e \<in> set pre. created_at r < created_at (snd e))
           \<and> (\<forall>e \<in> set post. created_at r \<le> created_at (snd e))"
proof -
  define f where "f = (\<lambda>k. created_at (the (map_of d k)))"
  have val: "f (fst e) = created_at (snd e)" if "e \<in> set d" for e
  proof -
    have "map_of d (fst e) = Some (snd e)" using dist that by simp
    then show ?thesis by (simp add: f_def)
  qed
  from ne have "map fst d \<noteq> []" by simp
  from py_min_by_first_min [OF this, of f] obtain pk k qk where
    res: "py_min_by f (map fst d) = Inr k" and dec: "map fst d = pk @ k # qk"
    and lt: "\<forall>y \<in> set pk. f k < f y" and le: "\<forall>y \<in> set qk. f k \<le> f y" by blast
  from dec obtain pre rest where d: "d = pre @ rest" and pre: "map fst pre = pk"
    and rest: "map fst rest = k # qk" by (auto simp: map_eq_append_conv)
  from rest obtain e post where rest': "rest = e # post" and e: "fst e = k"
    and post: "map fst post = qk" by (auto simp: map_eq_Cons_conv)
  have d': "d = pre @ (k, snd e) # post" using d rest' e by (cases e) simp
  have fk: "f k = created_at (snd e)" using val [of e] d rest' e by simp
  have "created_at (snd e) < created_at (snd x)" if "x \<in> set pre" for x
  proof -
    have "fst x \<in> set pk" using that pre by force
    then have "f k < f (fst x)" using lt by simp
    moreover have "x \<in> set d" using that d by simp
    ultimately show ?thesis using fk val [of x] by simp
  qed
  moreover have "created_at (snd e) \<le> created_at (snd x)" if "x \<in> set post" for x
  proof -
    have "fst x \<in> set qk" using that post by force
    then have "f k \<le> f (fst x)" using le by simp
    moreover have "x \<in> set d" using that d rest' by simp
    ultimately show ?thesis using fk val [of x] by simp
  qed
  ultimately show ?thesis using res d' unfolding f_def by blast
qed

lemma py_min_by_keys:
  assumes "d \<noteq> []"
  shows "\<exists>k. py_min_by f (map fst d) = Inr k \<and> k \<in> fst ` set d"
proof -
  from assms have "map fst d \<noteq> []" by simp
  from py_min_by_first_min [OF this, of f] obtain pk k qk where
    res: "py_min_by f (map fst d) = Inr k" and dec: "map fst d = pk @ k # qk" by blast
  have "k \<in> set (map fst d)" unfolding dec by simp
  then have "k \<in> fst ` set d" by simp
  with res show ?thesis by blast
qed

text \<open>Insertion keeps the size bound, one operation at a time and along a run.\<close>

lemma add_to_cache_room:
  "int (length (completion_cache self)) < cache_max_size self \<Longrightarrow>
   add_to_cache self key response =
     Inr (self\<lparr>completion_cache := AList.update key response (completion_cache self)\<rparr>)"
  by (simp add: add_to_cache_def)

lemma add_to_cache_bounded:
  assumes pos: "0 < cache_max_size self"
    and le: "int (length (completion_cache self)) \<le> cache_max_size self"
  shows "\<exists>self'. add_to_cache self key response = Inr self'
           \<and> cache_max_size self' = cache_max_size self
           \<and> int (length (completion_cache self')) \<le> cache_max_size self'
           \<and> map_of (completion_cache self') key = Some response"
proof (cases "int (length (completion_cache self)) < cache_max_size self")
  case True
  have "length (AList.update key response (completion_cache self))
          \<le> Suc (length (completion_cache self))" by (rule length_update_le)
  then have "int (length (AList.update key response (completion_cache self)))
          \<le> cache_max_size self" using True by linarith
  then show ?thesis
    using True by (simp add: add_to_cache_room AList.update_conv')
next
  case False
  then have full: "cache_max_size self \<le> int (length (completion_cache self))" by simp
  then have ne: "completion_cache self \<noteq> []" using pos by auto
  from py_min_by_keys [OF ne] obtain k where
    k: "py_min_by (\<lambda>k. created_at (the (map_of (completion_cache self) k)))
          (map fst (completion_cache self)) = Inr k"
    and mem: "k \<in> fst ` set (completion_cache self)" by blast
  have "length (AList.delete k (completion_cache self)) < length (completion_cache self)"
    using mem by (rule length_delete_less)
  moreover have "length (AList.update key response (AList.delete k (completion_cache self)))
          \<le> Suc (length (AList.delete k (completion_cache self)))" by (rule length_update_le)
  ultimately have "int (length (AList.update key response (AList.delete k (completion_cache self))))
          \<le> cache_max_size self" using le by linarith
  then show ?thesis
    using full k by (simp add: add_to_cache_def AList.update_conv')
qed

lemma apply_op_bounded:
  assumes "0 < cache_max_size self"
    and "int (length (completion_cache self)) \<le> cache_max_size self"
  shows "\<exists>self'. apply_op self op = Inr self'
           \<and> cache_max_size self' = cache_max_size self
           \<and> int (length (completion_cache self')) \<le> cache_max_size self'"
proof (cases op)
  case (GetCodeCompletion gemini code ctx cache_key now)
  show ?thesis
  proof (cases "fst (cache_check self cache_key now)")
    case (Some r)
    then show ?thesis using assms GetCodeCompletion by (simp add: get_code_completion_def)
  next
    case None
    show ?thesis
    proof (cases cache_key)
      case None
      then show ?thesis
        using assms GetCodeCompletion \<open>fst (cache_check self cache_key now) = None\<close>
        by (simp add: get_code_completion_def Let_def)
    next
      case (Some k)
      from add_to_cache_bounded [OF assms] obtain self' where
        "add_to_cache self k
           (gemini \<lparr>prompt = code, req_context = ctx, max_tokens = 512, temperature = 3 / 10,
                    stream = False, request_type = ''completion''\<rparr>) = Inr self'"
        "cache_max_size self' = cache_max_size self"
        "int (length (completion_cache self')) \<le> cache_max_size self'" by blast
      then show ?thesis
        using assms GetCodeCompletion Some \<open>fst (cache_check self cache_key now) = None\<close>
        by (simp add: get_code_completion_def Let_def)
    qed
  qed
next
  case (AddToCache key response)
  then show ?thesis using add_to_cache_bounded [OF assms, of key response] by auto
next
  case ClearCache
  then show ?thesis using assms by (simp add: clear_cache_def)
qed

lemma run_ops_bounded:
  assumes "0 < cache_max_size self"
    and "int (length (completion_cache self)) \<le> cache_max_size self"
  shows "\<exists>self'. run_ops self ops = Inr self'
           \<and> cache_max_size self' = cache_max_size self
           \<and> int (length (completion_cache self')) \<le> cache_max_size self'"
  using assms
proof (induction ops arbitrary: self)
  case Nil
  then show ?case by simp
next
  case (Cons op ops)
  from apply_op_bounded [OF Cons.prems, of op] obtain s1 where
    s1: "apply_op self op = Inr s1" "cache_max_size s1 = cache_max_size self"
      "int (length (completion_cache s1)) \<le> cache_max_size s1" by blast
  then have "0 < cache_max_size s1" using Cons.prems by simp
  from Cons.IH [OF this s1(3)] obtain s2 where
    "run_ops s1 ops = Inr s2" "cache_max_size s2 = cache_max_size s1"
    "int (length (completion_cache s2)) \<le> cache_max_size s2" by blast
  then show ?case using s1 by simp
qed

text \<open>The keys stored by the public entry point.\<close>

lemma add_to_cache_keys:
  assumes "add_to_cache self key response = Inr self'"
  shows "fst ` set (completion_cache self') \<subseteq> insert key (fst ` set (completion_cache self))"
proof (cases "cache_max_size self \<le> int (length (completion_cache self))")
  case False
  then have c: "completion_cache self' = AList.update key response (completion_cache self)"
    using assms by (auto simp: add_to_cache_def)
  have "fst ` set (completion_cache self') = {key} \<union> fst ` set (completion_cache self)"
    by (simp only: c AList.dom_update)
  then show ?thesis by blast
next
  case True
  then obtain k where
    c: "completion_cache self' =
          AList.update key response (AList.delete k (completion_cache self))"
    using assms by (auto simp: add_to_cache_def split: sum.splits)
  have "fst ` set (completion_cache self')
          = {key} \<union> fst ` set (AList.delete k (completion_cache self))"
    by (simp only: c AList.dom_update)
  then show ?thesis
    using AList.dom_delete_subset [of k "completion_cache self"] by blast
qed

lemma get_code_completion_never_stores_empty_key:
  assumes "[] \<notin> fst ` set (completion_cache self)"
    and "get_code_completion gemini self code ctx cache_key now = Inr (r, self')"
  shows "[] \<notin> fst ` set (completion_cache self')"
proof (cases "fst (cache_check self cache_key now)")
  case (Some c)
  then show ?thesis using assms by (simp add: get_code_completion_def)
next
  case None
  show ?thesis
  proof (cases cache_key)
    case no_key: None
    then show ?thesis using assms None by (simp add: get_code_completion_def Let_def)
  next
    case (Some k)
    show ?thesis
    proof (cases "k \<noteq> [] \<and> finish_reason r \<noteq> ''error''")
      case False
      then show ?thesis
        using assms None Some
        by (auto simp: get_code_completion_def Let_def split: if_splits sum.splits)
    next
      case True
      then have "\<exists>resp. add_to_cache self k resp = Inr self'"
        using assms None Some
        by (auto simp: get_code_completion_def Let_def split: if_splits sum.splits)
      then obtain resp where "add_to_cache self k resp = Inr self'" by blast
      from add_to_cache_keys [OF this] show ?thesis using assms(1) True by auto
    qed
  qed
qed

section \<open>Claims on the RateLimiter\<close>

text \<open>
  C2, as the code has it. Constructing a \<open>RateLimiter\<close> never fails: for every
  \<open>requests_per_minute\<close>, positive or not, \<open>__init__\<close> stores the value with an empty
  \<open>request_times\<close>, so it agrees with the specified construction exactly on the positive
  limits. A limit \<open>\<le> 0\<close> surfaces only later: the first \<open>wait_if_needed\<close> finds
  \<open>len([]) >= requests_per_minute\<close>, calls \<open>min([])\<close> and raises \<open>ValueError\<close>, leaving
  \<open>request_times\<close> empty.
\<close>

theorem RateLimiter_init_never_rejects:
  "RateLimiter_init rpm = \<lparr>requests_per_minute = rpm, request_times = []\<rparr>
   \<and> (0 < rpm \<longrightarrow> spec_RequestPacer_new rpm = Inr (RateLimiter_init rpm))
   \<and> (rpm \<le> 0 \<longrightarrow> wait_if_needed (RateLimiter_init rpm) now
                     = ([Acquire, Raise ValueError, Release], RateLimiter_init rpm))"
  by (simp add: RateLimiter_init_def spec_RequestPacer_new_def wait_if_needed_def py_min_def)

theorem RateLimiter_init_never_rejects_witness:
  "(0::int) < 60 \<and> spec_RequestPacer_new 60 = Inr (RateLimiter_init 60)
   \<and> (0::int) \<le> 0
   \<and> wait_if_needed (RateLimiter_init 0) 5 = ([Acquire, Raise ValueError, Release], RateLimiter_init 0)"
  using RateLimiter_init_never_rejects [of 60 0] RateLimiter_init_never_rejects [of 0 5]
  by (simp add: RateLimiter_init_def)

text \<open>
  C2, as the specification states it, fails: with \<open>requests_per_minute = 0\<close> the
  specified construction is rejected with \<open>InvalidConfiguration\<close>, the source's
  construction returns a limiter.
\<close>

theorem RateLimiter_init_zero_accepted:
  "spec_RequestPacer_new 0 = Inl InvalidConfiguration
   \<and> RateLimiter_init 0 = \<lparr>requests_per_minute = 0, request_times = []\<rparr>
   \<and> spec_RequestPacer_new 0 \<noteq> Inr (RateLimiter_init 0)"
  by (simp add: RateLimiter_init_def spec_RequestPacer_new_def)

text \<open>
  C7, as stated, fails. With \<open>requests_per_minute = 0\<close> the first call finds the count
  0 of stored timestamps \<open>>=\<close> the limit and calls \<open>min([])\<close>: it raises \<open>ValueError\<close>,
  sleeps for no time, records nothing and admits nothing, where the claim has it suspend
  or go on, and then return.
\<close>

theorem nonpositive_limit_raises_instead_of_suspending:
  "requests_per_minute (RateLimiter_init 0) \<le> int (length [req_time \<leftarrow> request_times (RateLimiter_init 0). 0 - req_time < (60::real)])
   \<and> wait_if_needed (RateLimiter_init 0) 0
        = ([Acquire, Raise ValueError, Release], \<lparr>requests_per_minute = 0, request_times = []\<rparr>)
   \<and> raised (fst (wait_if_needed (RateLimiter_init 0) 0))
   \<and> slept (fst (wait_if_needed (RateLimiter_init 0) 0)) = 0
   \<and> admitted (run_calls (pacer_start (RateLimiter_init 0)) [0]) = []"
  by code_simp

text \<open>
  C7, as the code has it. Whenever the list left by the purge is not empty and its
  count is at least \<open>requests_per_minute\<close>, the call computes
  \<open>oldest = min(request_times)\<close> and awaits \<open>asyncio.sleep(wait_time)\<close> for exactly
  \<open>wait_time = 60 - (now - oldest)\<close>, then records \<open>now\<close> and returns; \<open>wait_time\<close> is
  always positive there, because the purge keeps only timestamps with
  \<open>now - req_time < 60\<close>. When the list left by the purge is empty and its count 0 is at
  least \<open>requests_per_minute\<close> (a limit \<open>\<le> 0\<close>), \<open>min\<close> raises \<open>ValueError\<close>: the call
  neither sleeps nor records a timestamp.
\<close>

theorem wait_if_needed_sleeps_until_oldest_expires:
  assumes "purged = [req_time \<leftarrow> request_times self. now - req_time < 60]"
    and "requests_per_minute self \<le> int (length purged)"
  shows "(purged \<noteq> [] \<longrightarrow>
            0 < 60 - (now - Min (set purged))
            \<and> wait_if_needed self now =
                ([Acquire, Sleep (60 - (now - Min (set purged))), Release],
                 self\<lparr>request_times := purged @ [now]\<rparr>))
       \<and> (purged = [] \<longrightarrow>
            wait_if_needed self now =
              ([Acquire, Raise ValueError, Release], self\<lparr>request_times := []\<rparr>))"
proof (intro conjI impI)
  assume ne: "purged \<noteq> []"
  then have "Min (set purged) \<in> set purged"
    unfolding assms(1) by (rule Min_purged_in)
  then show "0 < 60 - (now - Min (set purged))" unfolding assms(1) by simp
  then show "wait_if_needed self now =
                ([Acquire, Sleep (60 - (now - Min (set purged))), Release],
                 self\<lparr>request_times := purged @ [now]\<rparr>)"
    using ne assms by (simp add: wait_if_needed_cases Let_def)
next
  assume "purged = []"
  then show "wait_if_needed self now =
              ([Acquire, Raise ValueError, Release], self\<lparr>request_times := []\<rparr>)"
    using assms by (simp add: wait_if_needed_cases Let_def)
qed

text \<open>
  The specification's example for C7: limit 2, three calls at \<open>t = 0\<close>. The first two
  return at once; the third finds two timestamps, sleeps \<open>60 - (0 - 0) = 60\<close> seconds,
  that is until \<open>t = 60\<close>, and returns. And a limit of \<open>-1\<close> at \<open>t = 100\<close>, when the
  purge has emptied the list: the call raises.
\<close>

theorem wait_if_needed_sleeps_until_oldest_expires_witness:
  "wait_if_needed (RateLimiter_init 2) 0
     = ([Acquire, Release], \<lparr>requests_per_minute = 2, request_times = [0]\<rparr>)
   \<and> wait_if_needed \<lparr>requests_per_minute = 2, request_times = [0]\<rparr> 0
     = ([Acquire, Release], \<lparr>requests_per_minute = 2, request_times = [0, 0]\<rparr>)
   \<and> [req_time \<leftarrow> [0, 0]. 0 - req_time < (60::real)] = [0, 0]
   \<and> (2::int) \<le> int (length [0, 0 :: real])
   \<and> wait_if_needed \<lparr>requests_per_minute = 2, request_times = [0, 0]\<rparr> 0
     = ([Acquire, Sleep 60, Release], \<lparr>requests_per_minute = 2, request_times = [0, 0, 0]\<rparr>)
   \<and> [req_time \<leftarrow> [0]. 100 - req_time < (60::real)] = []
   \<and> (-1::int) \<le> int (length ([]::real list))
   \<and> wait_if_needed \<lparr>requests_per_minute = -1, request_times = [0]\<rparr> 100
     = ([Acquire, Raise ValueError, Release], \<lparr>requests_per_minute = -1, request_times = []\<rparr>)"
proof -
  have first: "wait_if_needed (RateLimiter_init 2) 0
     = ([Acquire, Release], \<lparr>requests_per_minute = 2, request_times = [0]\<rparr>)"
    by (simp add: wait_if_needed_def RateLimiter_init_def)
  have second: "wait_if_needed \<lparr>requests_per_minute = 2, request_times = [0]\<rparr> 0
     = ([Acquire, Release], \<lparr>requests_per_minute = 2, request_times = [0, 0]\<rparr>)"
    by (simp add: wait_if_needed_def)
  have third: "wait_if_needed \<lparr>requests_per_minute = 2, request_times = [0, 0]\<rparr> 0
     = ([Acquire, Sleep 60, Release], \<lparr>requests_per_minute = 2, request_times = [0, 0, 0]\<rparr>)"
    using wait_if_needed_sleeps_until_oldest_expires [where purged = "[0, 0]" and now = 0
        and self = "\<lparr>requests_per_minute = 2, request_times = [0, 0]\<rparr>"]
    by simp
  have fourth: "wait_if_needed \<lparr>requests_per_minute = -1, request_times = [0]\<rparr> 100
     = ([Acquire, Raise ValueError, Release], \<lparr>requests_per_minute = -1, request_times = []\<rparr>)"
    using wait_if_needed_sleeps_until_oldest_expires [where purged = "[]" and now = 100
        and self = "\<lparr>requests_per_minute = -1, request_times = [0]\<rparr>"]
    by simp
  from first second third fourth show ?thesis by simp
qed

text \<open>
  C1, at the input where the code breaks it. The limit is 2 and five tasks call
  \<open>wait_if_needed\<close> at \<open>t = 0\<close>. The first two return at 0. The third sleeps until 60
  holding the lock, but records the timestamp 0 it read before sleeping. The fourth and
  fifth take the lock at 60; the purge drops all three stale timestamps, so both are
  let through at once. Three requests are admitted at \<open>t = 60\<close>: the trailing window
  that ends there holds 3 admissions, more than \<open>requests_per_minute = 2\<close>.
\<close>

theorem five_simultaneous_calls_admit_three_at_once:
  "admitted (run_calls (pacer_start (RateLimiter_init 2)) [0, 0, 0, 0, 0]) = [0, 0, 60, 60, 60]
   \<and> admissions_in_window
        (admitted (run_calls (pacer_start (RateLimiter_init 2)) [0, 0, 0, 0, 0])) 60 = 3
   \<and> requests_per_minute (RateLimiter_init 2) = 2"
  by code_simp







section \<open>Claims on the completion cache\<close>

text \<open>
  C3, as stated, fails. With \<open>cache_max_size = 2\<close> and the entries \<open>a\<close> (created at 0)
  and \<open>b\<close> (created at 1), overwriting the existing key \<open>b\<close> finds the cache full, evicts
  the oldest entry \<open>a\<close> and only then stores \<open>b\<close>: the size drops from 2 to 1 and the
  other key \<open>a\<close> is gone.
\<close>

theorem overwrite_in_full_cache_evicts_other_key:
  "run_ops \<lparr>completion_cache = [], cache_max_size = 2\<rparr>
      [AddToCache ''a'' resp_X, AddToCache ''b'' resp_Y]
     = Inr \<lparr>completion_cache = [(''a'', resp_X), (''b'', resp_Y)], cache_max_size = 2\<rparr>
   \<and> ''b'' \<in> set (map fst [(''a'', resp_X), (''b'', resp_Y)])
   \<and> add_to_cache \<lparr>completion_cache = [(''a'', resp_X), (''b'', resp_Y)], cache_max_size = 2\<rparr>
        ''b'' resp_Z
     = Inr \<lparr>completion_cache = [(''b'', resp_Z)], cache_max_size = 2\<rparr>
   \<and> length [(''b'', resp_Z)] \<noteq> length [(''a'', resp_X), (''b'', resp_Y)]
   \<and> map_of [(''a'', resp_X), (''b'', resp_Y)] ''a'' = Some resp_X
   \<and> map_of [(''b'', resp_Z)] ''a'' = None"
  by (simp add: add_to_cache_def py_min_by_def resp_X_def resp_Y_def resp_Z_def AIResponse_new_def)

text \<open>
  C3, as the code has it. \<open>_add_to_cache\<close> does not look whether the key is already
  stored; it evicts whenever \<open>len(completion_cache) >= cache_max_size\<close>. A put on an
  existing key in a cache below capacity evicts nothing: the size, the keys and every
  other entry are unchanged and the key maps to the new response. In a full cache the put
  first evicts the oldest entry, as for a new key. When that entry is the overwritten key
  itself, the key is stored again at the end and nothing else changes (the
  specification's example: \<open>cache_max_size = 1\<close>, \<open>put a X\<close> then \<open>put a Y\<close> leaves the
  one entry \<open>a\<close> with \<open>Y\<close>); when it is another key, that key is removed and the size
  drops by one.
\<close>

theorem overwrite_evicts_oldest_when_cache_full:
  assumes dist: "distinct (map fst (completion_cache self))"
    and old: "key \<in> set (map fst (completion_cache self))"
  shows "(int (length (completion_cache self)) < cache_max_size self \<longrightarrow>
            (\<exists>self'. add_to_cache self key response = Inr self'
               \<and> length (completion_cache self') = length (completion_cache self)
               \<and> map fst (completion_cache self') = map fst (completion_cache self)
               \<and> map_of (completion_cache self')
                   = (map_of (completion_cache self))(key \<mapsto> response)))
       \<and> (cache_max_size self \<le> int (length (completion_cache self)) \<longrightarrow>
            (\<exists>pre oldest_key oldest post.
               completion_cache self = pre @ (oldest_key, oldest) # post
               \<and> (\<forall>e \<in> set pre. created_at oldest < created_at (snd e))
               \<and> (\<forall>e \<in> set post. created_at oldest \<le> created_at (snd e))
               \<and> add_to_cache self key response =
                   Inr (self\<lparr>completion_cache := AList.update key response (pre @ post)\<rparr>)
               \<and> (oldest_key = key \<longrightarrow>
                     AList.update key response (pre @ post) = pre @ post @ [(key, response)])
               \<and> (oldest_key \<noteq> key \<longrightarrow>
                     Suc (length (AList.update key response (pre @ post)))
                       = length (completion_cache self)
                     \<and> oldest_key \<notin> fst ` set (AList.update key response (pre @ post)))))"
proof (intro conjI impI)
  assume room: "int (length (completion_cache self)) < cache_max_size self"
  have "key \<in> fst ` set (completion_cache self)" using old by simp
  from update_existing_key [OF this, of response]
  show "\<exists>self'. add_to_cache self key response = Inr self'
               \<and> length (completion_cache self') = length (completion_cache self)
               \<and> map fst (completion_cache self') = map fst (completion_cache self)
               \<and> map_of (completion_cache self')
                   = (map_of (completion_cache self))(key \<mapsto> response)"
    using room by (simp add: add_to_cache_room AList.update_conv')
next
  assume full: "cache_max_size self \<le> int (length (completion_cache self))"
  have ne: "completion_cache self \<noteq> []" using old by auto
  from oldest_entry [OF dist ne] obtain pre k r post where
    res: "py_min_by (\<lambda>k. created_at (the (map_of (completion_cache self) k)))
            (map fst (completion_cache self)) = Inr k"
    and dec: "completion_cache self = pre @ (k, r) # post"
    and lt: "\<forall>e \<in> set pre. created_at r < created_at (snd e)"
    and le: "\<forall>e \<in> set post. created_at r \<le> created_at (snd e)" by blast
  have del: "AList.delete k (completion_cache self) = pre @ post"
    using dist unfolding dec by (rule delete_middle)
  have add: "add_to_cache self key response =
      Inr (self\<lparr>completion_cache := AList.update key response (pre @ post)\<rparr>)"
    using full res del by (simp add: add_to_cache_def)
  have knot: "k \<notin> fst ` set (pre @ post)" using dist unfolding dec by auto
  have same: "AList.update key response (pre @ post) = pre @ post @ [(key, response)]"
    if "k = key"
  proof -
    have "key \<notin> fst ` set (pre @ post)" using knot that by simp
    then have "AList.update key response (pre @ post) = (pre @ post) @ [(key, response)]"
      by (rule update_new_key)
    then show ?thesis by simp
  qed
  have other: "Suc (length (AList.update key response (pre @ post)))
                 = length (completion_cache self)
               \<and> k \<notin> fst ` set (AList.update key response (pre @ post))"
    if "k \<noteq> key"
  proof -
    have mem: "key \<in> fst ` set (pre @ post)"
      using old that unfolding dec by (auto simp: image_Un)
    have "length (AList.update key response (pre @ post)) = length (pre @ post)"
      using update_existing_key [OF mem, of response] by simp
    moreover have "fst ` set (AList.update key response (pre @ post))
                     = {key} \<union> fst ` set (pre @ post)" by (rule AList.dom_update)
    ultimately show ?thesis using knot that unfolding dec by auto
  qed
  show "\<exists>pre oldest_key oldest post.
               completion_cache self = pre @ (oldest_key, oldest) # post
               \<and> (\<forall>e \<in> set pre. created_at oldest < created_at (snd e))
               \<and> (\<forall>e \<in> set post. created_at oldest \<le> created_at (snd e))
               \<and> add_to_cache self key response =
                   Inr (self\<lparr>completion_cache := AList.update key response (pre @ post)\<rparr>)
               \<and> (oldest_key = key \<longrightarrow>
                     AList.update key response (pre @ post) = pre @ post @ [(key, response)])
               \<and> (oldest_key \<noteq> key \<longrightarrow>
                     Suc (length (AList.update key response (pre @ post)))
                       = length (completion_cache self)
                     \<and> oldest_key \<notin> fst ` set (AList.update key response (pre @ post)))"
    using dec lt le add same other by blast
qed

theorem overwrite_evicts_oldest_when_cache_full_witness:
  "run_ops \<lparr>completion_cache = [], cache_max_size = 1\<rparr>
      [AddToCache ''a'' resp_X, AddToCache ''a'' resp_Y]
     = Inr \<lparr>completion_cache = [(''a'', resp_Y)], cache_max_size = 1\<rparr>
   \<and> distinct (map fst [(''a'', resp_X)])
   \<and> ''a'' \<in> set (map fst [(''a'', resp_X)])
   \<and> (1::int) \<le> int (length [(''a'', resp_X)])
   \<and> add_to_cache \<lparr>completion_cache = [(''a'', resp_X)], cache_max_size = 1\<rparr> ''a'' resp_Y
     = Inr \<lparr>completion_cache = [(''a'', resp_Y)], cache_max_size = 1\<rparr>
   \<and> int (length [(''a'', resp_X)]) < (2::int)
   \<and> add_to_cache \<lparr>completion_cache = [(''a'', resp_X)], cache_max_size = 2\<rparr> ''a'' resp_Y
     = Inr \<lparr>completion_cache = [(''a'', resp_Y)], cache_max_size = 2\<rparr>"
  using overwrite_evicts_oldest_when_cache_full [of "\<lparr>completion_cache = [(''a'', resp_X)], cache_max_size = 1\<rparr>" "''a''" resp_Y]
    overwrite_evicts_oldest_when_cache_full [of "\<lparr>completion_cache = [(''a'', resp_X)], cache_max_size = 2\<rparr>" "''a''" resp_Y]
  by (simp add: add_to_cache_def py_min_by_def resp_X_def resp_Y_def AIResponse_new_def)

text \<open>
  C4. When a new key is inserted into a cache that is at capacity
  (\<open>len(completion_cache) >= cache_max_size\<close>, so the insert would exceed the bound),
  exactly one entry is evicted before the insert: the entry with the smallest
  \<open>created_at\<close>, and among equals the one inserted first (every entry before it in
  insertion order is strictly younger). All other entries are kept in their order and the
  new entry is appended. Below capacity nothing is evicted. The dict has distinct keys and
  the capacity is positive.
\<close>

theorem new_key_in_full_cache_evicts_oldest_first:
  assumes dist: "distinct (map fst (completion_cache self))"
    and new: "key \<notin> set (map fst (completion_cache self))"
    and pos: "0 < cache_max_size self"
  shows "(cache_max_size self \<le> int (length (completion_cache self)) \<longrightarrow>
            (\<exists>pre oldest_key oldest post.
               completion_cache self = pre @ (oldest_key, oldest) # post
               \<and> (\<forall>e \<in> set pre. created_at oldest < created_at (snd e))
               \<and> (\<forall>e \<in> set post. created_at oldest \<le> created_at (snd e))
               \<and> add_to_cache self key response =
                   Inr (self\<lparr>completion_cache := pre @ post @ [(key, response)]\<rparr>)))
       \<and> (int (length (completion_cache self)) < cache_max_size self \<longrightarrow>
            add_to_cache self key response =
              Inr (self\<lparr>completion_cache := completion_cache self @ [(key, response)]\<rparr>))"
proof (intro conjI impI)
  assume full: "cache_max_size self \<le> int (length (completion_cache self))"
  then have ne: "completion_cache self \<noteq> []" using pos by auto
  from oldest_entry [OF dist ne] obtain pre k r post where
    res: "py_min_by (\<lambda>k. created_at (the (map_of (completion_cache self) k)))
            (map fst (completion_cache self)) = Inr k"
    and dec: "completion_cache self = pre @ (k, r) # post"
    and lt: "\<forall>e \<in> set pre. created_at r < created_at (snd e)"
    and le: "\<forall>e \<in> set post. created_at r \<le> created_at (snd e)" by blast
  have del: "AList.delete k (completion_cache self) = pre @ post"
    using dist unfolding dec by (rule delete_middle)
  have "key \<notin> fst ` set (pre @ post)" using new unfolding dec by auto
  then have "AList.update key response (pre @ post) = (pre @ post) @ [(key, response)]"
    by (rule update_new_key)
  then have "add_to_cache self key response =
      Inr (self\<lparr>completion_cache := pre @ post @ [(key, response)]\<rparr>)"
    using full res del by (simp add: add_to_cache_def)
  then show "\<exists>pre oldest_key oldest post.
               completion_cache self = pre @ (oldest_key, oldest) # post
               \<and> (\<forall>e \<in> set pre. created_at oldest < created_at (snd e))
               \<and> (\<forall>e \<in> set post. created_at oldest \<le> created_at (snd e))
               \<and> add_to_cache self key response =
                   Inr (self\<lparr>completion_cache := pre @ post @ [(key, response)]\<rparr>)"
    using dec lt le by blast
next
  assume room: "int (length (completion_cache self)) < cache_max_size self"
  have "key \<notin> fst ` set (completion_cache self)" using new by simp
  then have "AList.update key response (completion_cache self)
               = completion_cache self @ [(key, response)]" by (rule update_new_key)
  then show "add_to_cache self key response =
      Inr (self\<lparr>completion_cache := completion_cache self @ [(key, response)]\<rparr>)"
    using room by (simp add: add_to_cache_room)
qed

text \<open>
  The specification's example for C4: \<open>cache_max_size = 2\<close>; \<open>put a\<close> at 0, \<open>put b\<close> at 1,
  \<open>put c\<close> at 2. The third put evicts \<open>a\<close>; afterwards the check finds nothing for \<open>a\<close>
  and finds the values of \<open>b\<close> and \<open>c\<close>.
\<close>

theorem new_key_in_full_cache_evicts_oldest_first_witness:
  "run_ops \<lparr>completion_cache = [], cache_max_size = 2\<rparr>
      [AddToCache ''a'' resp_X, AddToCache ''b'' resp_Y]
     = Inr \<lparr>completion_cache = [(''a'', resp_X), (''b'', resp_Y)], cache_max_size = 2\<rparr>
   \<and> distinct (map fst [(''a'', resp_X), (''b'', resp_Y)])
   \<and> ''c'' \<notin> set (map fst [(''a'', resp_X), (''b'', resp_Y)])
   \<and> (2::int) \<le> int (length [(''a'', resp_X), (''b'', resp_Y)])
   \<and> created_at resp_X < created_at resp_Y
   \<and> add_to_cache \<lparr>completion_cache = [(''a'', resp_X), (''b'', resp_Y)], cache_max_size = 2\<rparr>
        ''c'' resp_Z
     = Inr \<lparr>completion_cache = [(''b'', resp_Y), (''c'', resp_Z)], cache_max_size = 2\<rparr>
   \<and> fst (cache_check \<lparr>completion_cache = [(''b'', resp_Y), (''c'', resp_Z)], cache_max_size = 2\<rparr>
        (Some ''a'') 2) = None
   \<and> fst (cache_check \<lparr>completion_cache = [(''b'', resp_Y), (''c'', resp_Z)], cache_max_size = 2\<rparr>
        (Some ''b'') 2) = Some resp_Y
   \<and> fst (cache_check \<lparr>completion_cache = [(''b'', resp_Y), (''c'', resp_Z)], cache_max_size = 2\<rparr>
        (Some ''c'') 2) = Some resp_Z
   \<and> add_to_cache \<lparr>completion_cache = [(''a'', resp_X)], cache_max_size = 2\<rparr> ''b'' resp_Y
     = Inr \<lparr>completion_cache = [(''a'', resp_X), (''b'', resp_Y)], cache_max_size = 2\<rparr>"
  using new_key_in_full_cache_evicts_oldest_first [of "\<lparr>completion_cache = [(''a'', resp_X), (''b'', resp_Y)], cache_max_size = 2\<rparr>"
      "''c''" resp_Z]
    new_key_in_full_cache_evicts_oldest_first [of "\<lparr>completion_cache = [(''a'', resp_X)], cache_max_size = 2\<rparr>" "''b''" resp_Y]
  by (simp add: add_to_cache_def py_min_by_def cache_check_def Let_def
      resp_X_def resp_Y_def resp_Z_def AIResponse_new_def)

text \<open>
  C5, as stated, fails, twice. The empty string is a key like any other for
  \<open>_add_to_cache\<close>, but it is falsy in \<open>if cache_key and ...\<close>: stored and one second
  old, it is not found. And the lookup is not a separate operation: on a stale entry
  \<open>get_code_completion\<close> goes on to the service and stores the answer, here replacing the
  stale \<open>b\<close> and, the cache being full, evicting \<open>a\<close> first.
\<close>

theorem empty_key_missed_and_stale_hit_overwrites:
  "add_to_cache AIAssistant_init [] resp_X
     = Inr \<lparr>completion_cache = [([], resp_X)], cache_max_size = 100\<rparr>
   \<and> map_of [([], resp_X)] [] = Some resp_X
   \<and> 1 - created_at resp_X < 300
   \<and> fst (cache_check \<lparr>completion_cache = [([], resp_X)], cache_max_size = 100\<rparr> (Some []) 1)
       = None
   \<and> fst (cache_check \<lparr>completion_cache = [(''a'', resp_X), (''b'', resp_Y)], cache_max_size = 2\<rparr>
            (Some ''b'') 400) = None
   \<and> get_code_completion (\<lambda>request. AIResponse_new 400 ''Z'' ''stop'' None ''gemini-pro'' 0)
        \<lparr>completion_cache = [(''a'', resp_X), (''b'', resp_Y)], cache_max_size = 2\<rparr>
        ''x = '' [] (Some ''b'') 400
     = Inr (AIResponse_new 400 ''Z'' ''stop'' None ''gemini-pro'' 0,
            \<lparr>completion_cache = [(''b'', AIResponse_new 400 ''Z'' ''stop'' None ''gemini-pro'' 0)],
             cache_max_size = 2\<rparr>)"
  by (simp add: add_to_cache_def py_min_by_def cache_check_def get_code_completion_def Let_def
      AIAssistant_init_def resp_X_def resp_Y_def AIResponse_new_def)

text \<open>
  C5, as the code has it. For every non-empty key and every clock reading \<open>now\<close>, the
  cache check finds the stored response exactly when the key is present and
  \<open>now - created_at < 300\<close> (strictly); \<open>get_code_completion\<close> then returns it and
  leaves the cache as it was. For the empty key the check finds nothing, stored or not.
  The check itself changes nothing, but when it finds nothing (key absent, or entry
  stale) \<open>get_code_completion\<close> asks the service: an answer with
  \<open>finish_reason = "error"\<close> (or any answer, for the empty key) leaves the cache as it
  was, the stale entry in place; any other answer is stored under the key by
  \<open>_add_to_cache\<close>, replacing the stale entry.
\<close>

theorem cache_check_hit_iff_present_and_fresh:
  "(k \<noteq> [] \<longrightarrow>
      cache_check self (Some k) now =
        (case map_of (completion_cache self) k of
           None \<Rightarrow> None
         | Some r \<Rightarrow> if now - created_at r < 300 then Some r else None,
         self))
   \<and> cache_check self (Some []) now = (None, self)
   \<and> (\<forall>r. fst (cache_check self (Some k) now) = Some r \<longrightarrow>
          get_code_completion gemini self code ctx (Some k) now = Inr (r, self))
   \<and> (fst (cache_check self (Some k) now) = None
        \<and> (k = [] \<or> finish_reason
              (gemini \<lparr>prompt = code, req_context = ctx, max_tokens = 512, temperature = 3 / 10,
                       stream = False, request_type = ''completion''\<rparr>) = ''error'') \<longrightarrow>
          get_code_completion gemini self code ctx (Some k) now =
            Inr (gemini \<lparr>prompt = code, req_context = ctx, max_tokens = 512, temperature = 3 / 10,
                         stream = False, request_type = ''completion''\<rparr>, self))
   \<and> (fst (cache_check self (Some k) now) = None \<and> k \<noteq> []
        \<and> finish_reason
              (gemini \<lparr>prompt = code, req_context = ctx, max_tokens = 512, temperature = 3 / 10,
                       stream = False, request_type = ''completion''\<rparr>) \<noteq> ''error'' \<longrightarrow>
          get_code_completion gemini self code ctx (Some k) now =
            (case add_to_cache self k
                    (gemini \<lparr>prompt = code, req_context = ctx, max_tokens = 512,
                             temperature = 3 / 10, stream = False,
                             request_type = ''completion''\<rparr>) of
               Inl e \<Rightarrow> Inl e
             | Inr self' \<Rightarrow>
                 Inr (gemini \<lparr>prompt = code, req_context = ctx, max_tokens = 512,
                              temperature = 3 / 10, stream = False,
                              request_type = ''completion''\<rparr>, self')))"
proof -
  have check: "cache_check self (Some k) now =
        (case map_of (completion_cache self) k of
           None \<Rightarrow> None
         | Some r \<Rightarrow> if now - created_at r < 300 then Some r else None,
         self)" if nonempty: "k \<noteq> []"
  proof (cases "map_of (completion_cache self) k")
    case None
    then have "k \<notin> set (map fst (completion_cache self))"
      by (simp add: map_of_eq_None_iff)
    then show ?thesis using None by (simp add: cache_check_def)
  next
    case (Some r)
    then have "k \<in> set (map fst (completion_cache self))"
      using map_of_eq_None_iff [of "completion_cache self" k] by simp
    then show ?thesis using Some nonempty by (simp add: cache_check_def)
  qed
  have empty: "cache_check self (Some []) now = (None, self)"
    by (simp add: cache_check_def)
  have hit: "get_code_completion gemini self code ctx (Some k) now = Inr (r, self)"
    if "fst (cache_check self (Some k) now) = Some r" for r
    using that by (simp add: get_code_completion_def)
  have miss: "get_code_completion gemini self code ctx (Some k) now =
      (if k \<noteq> [] \<and> finish_reason
              (gemini \<lparr>prompt = code, req_context = ctx, max_tokens = 512, temperature = 3 / 10,
                       stream = False, request_type = ''completion''\<rparr>) \<noteq> ''error''
       then (case add_to_cache self k
                    (gemini \<lparr>prompt = code, req_context = ctx, max_tokens = 512,
                             temperature = 3 / 10, stream = False,
                             request_type = ''completion''\<rparr>) of
               Inl e \<Rightarrow> Inl e
             | Inr self' \<Rightarrow>
                 Inr (gemini \<lparr>prompt = code, req_context = ctx, max_tokens = 512,
                              temperature = 3 / 10, stream = False,
                              request_type = ''completion''\<rparr>, self'))
       else Inr (gemini \<lparr>prompt = code, req_context = ctx, max_tokens = 512,
                         temperature = 3 / 10, stream = False,
                         request_type = ''completion''\<rparr>, self))"
    if "fst (cache_check self (Some k) now) = None"
    using that by (simp add: get_code_completion_def Let_def)
  show ?thesis
  proof (intro conjI impI allI)
    assume "k \<noteq> []"
    then show "cache_check self (Some k) now =
        (case map_of (completion_cache self) k of
           None \<Rightarrow> None
         | Some r \<Rightarrow> if now - created_at r < 300 then Some r else None,
         self)" by (rule check)
  next
    show "cache_check self (Some []) now = (None, self)" by (rule empty)
  next
    fix r assume "fst (cache_check self (Some k) now) = Some r"
    then show "get_code_completion gemini self code ctx (Some k) now = Inr (r, self)"
      by (rule hit)
  next
    assume a: "fst (cache_check self (Some k) now) = None
        \<and> (k = [] \<or> finish_reason
              (gemini \<lparr>prompt = code, req_context = ctx, max_tokens = 512, temperature = 3 / 10,
                       stream = False, request_type = ''completion''\<rparr>) = ''error'')"
    then show "get_code_completion gemini self code ctx (Some k) now =
            Inr (gemini \<lparr>prompt = code, req_context = ctx, max_tokens = 512, temperature = 3 / 10,
                         stream = False, request_type = ''completion''\<rparr>, self)"
      using miss by auto
  next
    assume a: "fst (cache_check self (Some k) now) = None \<and> k \<noteq> []
        \<and> finish_reason
              (gemini \<lparr>prompt = code, req_context = ctx, max_tokens = 512, temperature = 3 / 10,
                       stream = False, request_type = ''completion''\<rparr>) \<noteq> ''error''"
    then show "get_code_completion gemini self code ctx (Some k) now =
            (case add_to_cache self k
                    (gemini \<lparr>prompt = code, req_context = ctx, max_tokens = 512,
                             temperature = 3 / 10, stream = False,
                             request_type = ''completion''\<rparr>) of
               Inl e \<Rightarrow> Inl e
             | Inr self' \<Rightarrow>
                 Inr (gemini \<lparr>prompt = code, req_context = ctx, max_tokens = 512,
                              temperature = 3 / 10, stream = False,
                              request_type = ''completion''\<rparr>, self'))"
      using miss by simp
  qed
qed

text \<open>
  The specification's example for C5: \<open>put a X\<close> at 0; the check returns \<open>X\<close> at 299 and
  nothing at 300 and 301. At 299 \<open>get_code_completion\<close> returns \<open>X\<close> without storing; at
  301 a failed answer leaves \<open>X\<close> in place and a good one replaces it.
\<close>

theorem cache_check_hit_iff_present_and_fresh_witness:
  "''a'' \<noteq> []
   \<and> cache_check \<lparr>completion_cache = [(''a'', resp_X)], cache_max_size = 100\<rparr> (Some ''a'') 299
       = (Some resp_X, \<lparr>completion_cache = [(''a'', resp_X)], cache_max_size = 100\<rparr>)
   \<and> cache_check \<lparr>completion_cache = [(''a'', resp_X)], cache_max_size = 100\<rparr> (Some ''a'') 300
       = (None, \<lparr>completion_cache = [(''a'', resp_X)], cache_max_size = 100\<rparr>)
   \<and> cache_check \<lparr>completion_cache = [(''a'', resp_X)], cache_max_size = 100\<rparr> (Some ''a'') 301
       = (None, \<lparr>completion_cache = [(''a'', resp_X)], cache_max_size = 100\<rparr>)
   \<and> get_code_completion (\<lambda>request. AIResponse_new 299 ''N'' ''stop'' None ''gemini-pro'' 0)
        \<lparr>completion_cache = [(''a'', resp_X)], cache_max_size = 100\<rparr> ''x = '' [] (Some ''a'') 299
       = Inr (resp_X, \<lparr>completion_cache = [(''a'', resp_X)], cache_max_size = 100\<rparr>)
   \<and> finish_reason (AIResponse_new 301 ''// failed'' ''error'' None [] 0) = ''error''
   \<and> get_code_completion (\<lambda>request. AIResponse_new 301 ''// failed'' ''error'' None [] 0)
        \<lparr>completion_cache = [(''a'', resp_X)], cache_max_size = 100\<rparr> ''x = '' [] (Some ''a'') 301
       = Inr (AIResponse_new 301 ''// failed'' ''error'' None [] 0,
              \<lparr>completion_cache = [(''a'', resp_X)], cache_max_size = 100\<rparr>)
   \<and> finish_reason (AIResponse_new 301 ''N'' ''stop'' None ''gemini-pro'' 0) \<noteq> ''error''
   \<and> get_code_completion (\<lambda>request. AIResponse_new 301 ''N'' ''stop'' None ''gemini-pro'' 0)
        \<lparr>completion_cache = [(''a'', resp_X)], cache_max_size = 100\<rparr> ''x = '' [] (Some ''a'') 301
       = Inr (AIResponse_new 301 ''N'' ''stop'' None ''gemini-pro'' 0,
              \<lparr>completion_cache = [(''a'', AIResponse_new 301 ''N'' ''stop'' None ''gemini-pro'' 0)],
               cache_max_size = 100\<rparr>)"
  using cache_check_hit_iff_present_and_fresh [of "''a''" "\<lparr>completion_cache = [(''a'', resp_X)], cache_max_size = 100\<rparr>" 299
      "\<lambda>request. AIResponse_new 299 ''N'' ''stop'' None ''gemini-pro'' 0" "''x = ''" "[]"]
    cache_check_hit_iff_present_and_fresh [of "''a''" "\<lparr>completion_cache = [(''a'', resp_X)], cache_max_size = 100\<rparr>" 300]
    cache_check_hit_iff_present_and_fresh [of "''a''" "\<lparr>completion_cache = [(''a'', resp_X)], cache_max_size = 100\<rparr>" 301
      "\<lambda>request. AIResponse_new 301 ''// failed'' ''error'' None [] 0" "''x = ''" "[]"]
    cache_check_hit_iff_present_and_fresh [of "''a''" "\<lparr>completion_cache = [(''a'', resp_X)], cache_max_size = 100\<rparr>" 301
      "\<lambda>request. AIResponse_new 301 ''N'' ''stop'' None ''gemini-pro'' 0" "''x = ''" "[]"]
  by (simp add: cache_check_def get_code_completion_def add_to_cache_def Let_def
      resp_X_def AIResponse_new_def)

text \<open>
  C8. With a positive \<open>cache_max_size\<close>, every sequence of \<open>get_code_completion\<close>,
  \<open>_add_to_cache\<close> and \<open>clear_cache\<close> calls that starts within the bound runs without an
  exception and ends within the bound, and an insertion is never refused: after
  \<open>_add_to_cache\<close> the key maps to the new response, room having been made by eviction.
  In particular this holds from the initial assistant, whose bound is 100.
\<close>

theorem completion_cache_size_bounded:
  "(0 < cache_max_size self \<and> int (length (completion_cache self)) \<le> cache_max_size self \<longrightarrow>
      (\<exists>self'. run_ops self ops = Inr self'
         \<and> cache_max_size self' = cache_max_size self
         \<and> int (length (completion_cache self')) \<le> cache_max_size self')
      \<and> (\<exists>self'. add_to_cache self key response = Inr self'
         \<and> int (length (completion_cache self')) \<le> cache_max_size self'
         \<and> map_of (completion_cache self') key = Some response))
   \<and> (\<exists>self'. run_ops AIAssistant_init ops = Inr self'
         \<and> cache_max_size self' = 100
         \<and> int (length (completion_cache self')) \<le> 100)"
proof -
  have init: "0 < cache_max_size AIAssistant_init"
    "int (length (completion_cache AIAssistant_init)) \<le> cache_max_size AIAssistant_init"
    by (simp_all add: AIAssistant_init_def)
  have "\<exists>self'. run_ops AIAssistant_init ops = Inr self'
         \<and> cache_max_size self' = cache_max_size AIAssistant_init
         \<and> int (length (completion_cache self')) \<le> cache_max_size self'"
    using init by (rule run_ops_bounded)
  then have fromInit: "\<exists>self'. run_ops AIAssistant_init ops = Inr self'
         \<and> cache_max_size self' = 100
         \<and> int (length (completion_cache self')) \<le> 100"
    by (auto simp: AIAssistant_init_def)
  show ?thesis
    using fromInit run_ops_bounded [of self ops] add_to_cache_bounded [of self key response]
    by blast
qed

theorem completion_cache_size_bounded_witness:
  "run_ops \<lparr>completion_cache = [], cache_max_size = 2\<rparr>
      [AddToCache ''a'' resp_X, AddToCache ''b'' resp_Y, AddToCache ''c'' resp_Z]
     = Inr \<lparr>completion_cache = [(''b'', resp_Y), (''c'', resp_Z)], cache_max_size = 2\<rparr>
   \<and> int (length [(''b'', resp_Y), (''c'', resp_Z)]) \<le> 2
   \<and> add_to_cache \<lparr>completion_cache = [(''b'', resp_Y), (''c'', resp_Z)], cache_max_size = 2\<rparr>
        ''a'' resp_X
     = Inr \<lparr>completion_cache = [(''c'', resp_Z), (''a'', resp_X)], cache_max_size = 2\<rparr>"
  using completion_cache_size_bounded [of "\<lparr>completion_cache = [], cache_max_size = 2\<rparr>"
      "[AddToCache ''a'' resp_X, AddToCache ''b'' resp_Y, AddToCache ''c'' resp_Z]"]
    completion_cache_size_bounded [of "\<lparr>completion_cache = [(''b'', resp_Y), (''c'', resp_Z)], cache_max_size = 2\<rparr>"
      "[]" "''a''" resp_X]
  by (simp add: add_to_cache_def py_min_by_def resp_X_def resp_Y_def resp_Z_def AIResponse_new_def)

text \<open>
  C10. With \<open>cache_key = None\<close>, \<open>get_code_completion\<close> returns the answer of the Gemini
  service to the request it builds, whatever the cache holds and whether or not the
  answer is an error, and the assistant (so the cache) is exactly as before; the cache
  check itself reports nothing and changes nothing.
\<close>

theorem no_cache_key_leaves_cache_untouched:
  "get_code_completion gemini self code ctx None now =
     Inr (gemini \<lparr>prompt = code, req_context = ctx, max_tokens = 512, temperature = 3 / 10,
                  stream = False, request_type = ''completion''\<rparr>, self)
   \<and> cache_check self None now = (None, self)"
  by (simp add: get_code_completion_def cache_check_def)

end
